theory Spec2Isabelle
  imports Main
begin

section \<open>The queue drainer (src/util/queue-drainer.ts)\<close>

subsection \<open>Data\<close>

text \<open>A rejected promise or a thrown \<^verbatim>\<open>Error\<close>, with its message.\<close>

datatype error = Error string

text \<open>
  \<^verbatim>\<open>SQS.Types.Message\<close>: every field is optional in the SDK's type; \<open>None\<close> is
  \<^verbatim>\<open>undefined\<close>.
\<close>

record message =
  MessageId :: "string option"
  ReceiptHandle :: "string option"
  Body :: "string option"

text \<open>
  One entry of a \<^verbatim>\<open>DeleteMessageBatchRequest\<close>. The source builds it as
  \<^verbatim>\<open>{ Id: MessageId, ReceiptHandle }\<close> and casts the list \<^verbatim>\<open>as any\<close>, so both
  fields carry whatever the message had, \<^verbatim>\<open>undefined\<close> included.
\<close>

record entry =
  EntryId :: "string option"
  EntryReceiptHandle :: "string option"

text \<open>What the code hands to the logger: a level, the fields object and the text.\<close>

datatype level = Debug | Info | Err

datatype field = Num nat | Failure error | Msg message

text \<open>
  The calls the drainer makes on its collaborators, in the order it makes them. The
  collaborators act on a world \<open>'w\<close> that the model threads through; the events are
  what the drainer itself did.
\<close>

datatype event =
    GetRemainingTime int
  | ReceiveMessage string nat
  | Polled "message list"
  | HandleMessage message
  | Handled message
  | DeleteMessage string string
  | DeleteMessageBatch string "entry list"
  | Log level "(string \<times> field) list" string

text \<open>
  The \<^verbatim>\<open>SQS\<close> client, as far as the drainer uses it. A call takes the request's
  fields and the world, and gives the settled promise (\<open>Inl\<close> a rejection) and the new
  world. \<^verbatim>\<open>receiveMessage\<close> resolves to the response's \<^verbatim>\<open>Messages\<close> field, which may
  be absent; \<^verbatim>\<open>deleteMessageBatch\<close> resolves to the ids the service reports as failed.
\<close>

record 'w SQS =
  sqs_receiveMessage :: "string \<Rightarrow> nat \<Rightarrow> 'w \<Rightarrow> (error + message list option) \<times> 'w"
  sqs_deleteMessage :: "string \<Rightarrow> string \<Rightarrow> 'w \<Rightarrow> (error + unit) \<times> 'w"
  sqs_deleteMessageBatch :: "string \<Rightarrow> entry list \<Rightarrow> 'w \<Rightarrow> (error + string list) \<times> 'w"

text \<open>
  The fields of \<^verbatim>\<open>class QueueDrainer\<close>, set by its constructor. The handler and the
  timer are the caller's functions and act on the world like the client does; the
  timer answers in whole milliseconds.
\<close>

record 'w QueueDrainer =
  sqs :: "'w SQS"
  queueUrl :: string
  handleMessage :: "message \<Rightarrow> 'w \<Rightarrow> (error + unit) \<times> 'w"
  getRemainingTime :: "'w \<Rightarrow> int \<times> 'w"

subsection \<open>Methods\<close>

text \<open>
  Every method returns its settled result, the world after it and the events it
  produced.
\<close>

definition poll :: "'w QueueDrainer \<Rightarrow> nat \<Rightarrow> 'w \<Rightarrow> (error + message list) \<times> 'w \<times> event list" where
  "poll d numMessages w =
     (case sqs_receiveMessage (sqs d) (queueUrl d) numMessages w of
        (Inl err, w') \<Rightarrow> (Inl err, w', [ReceiveMessage (queueUrl d) numMessages])
      | (Inr response, w') \<Rightarrow>
          (let messages = (case response of None \<Rightarrow> [] | Some ms \<Rightarrow> ms)
           in (Inr messages, w', [ReceiveMessage (queueUrl d) numMessages, Polled messages])))"

text \<open>\<^verbatim>\<open>!message.ReceiptHandle\<close> holds for \<^verbatim>\<open>undefined\<close> and for the empty string.\<close>

definition deleteMessage :: "'w QueueDrainer \<Rightarrow> message \<Rightarrow> 'w \<Rightarrow> (error + unit) \<times> 'w \<times> event list" where
  "deleteMessage d m w =
     (case ReceiptHandle m of
        None \<Rightarrow> (Inl (Error ''missing receipt handle''), w, [])
      | Some h \<Rightarrow>
          if h = [] then (Inl (Error ''missing receipt handle''), w, [])
          else
            (case sqs_deleteMessage (sqs d) (queueUrl d) h w of
               (Inl err, w') \<Rightarrow>
                 (Inr (), w',
                  [DeleteMessage (queueUrl d) h,
                   Log Err [(''err'', Failure err), (''message'', Msg m)] ''failed to delete message''])
             | (Inr u, w') \<Rightarrow> (Inr (), w', [DeleteMessage (queueUrl d) h])))"

text \<open>The constant \<^verbatim>\<open>Entries\<close> of \<^verbatim>\<open>deleteMessages\<close>: the \<^verbatim>\<open>map\<close> over the messages.\<close>

definition Entries :: "message list \<Rightarrow> entry list" where
  "Entries messages = map (\<lambda>m. \<lparr>EntryId = MessageId m, EntryReceiptHandle = ReceiptHandle m\<rparr>) messages"

text \<open>
  The batched delete is awaited with no \<^verbatim>\<open>try\<close> around it, so a rejection is the
  method's rejection. The response (the ids the service could not delete) is not read.
\<close>

definition deleteMessages :: "'w QueueDrainer \<Rightarrow> message list \<Rightarrow> 'w \<Rightarrow> (error + unit) \<times> 'w \<times> event list" where
  "deleteMessages d messages w =
     (case sqs_deleteMessageBatch (sqs d) (queueUrl d) (Entries messages) w of
        (Inl err, w') \<Rightarrow>
          (Inl err, w',
           [Log Debug [(''messageCount'', Num (length messages))] ''deleting messages'',
            DeleteMessageBatch (queueUrl d) (Entries messages)])
      | (Inr failed, w') \<Rightarrow>
          (Inr (), w',
           [Log Debug [(''messageCount'', Num (length messages))] ''deleting messages'',
            DeleteMessageBatch (queueUrl d) (Entries messages),
            Log Debug [(''messageCount'', Num (length messages))] ''deleted messages'']))"

text \<open>
  The \<^verbatim>\<open>for\<close> loop of \<^verbatim>\<open>processMessages\<close>: the handler is awaited on each message
  before the next index is read, and a rejection leaves the loop.
\<close>

fun handleEach :: "'w QueueDrainer \<Rightarrow> message list \<Rightarrow> 'w \<Rightarrow> (error + unit) \<times> 'w \<times> event list" where
  "handleEach d [] w = (Inr (), w, [])"
| "handleEach d (m # ms) w =
     (case handleMessage d m w of
        (Inl err, w') \<Rightarrow> (Inl err, w', [HandleMessage m])
      | (Inr u, w') \<Rightarrow>
          (case handleEach d ms w' of
             (r, w'', evs) \<Rightarrow> (r, w'', HandleMessage m # Handled m # evs)))"

definition processMessages :: "'w QueueDrainer \<Rightarrow> message list \<Rightarrow> 'w \<Rightarrow> (error + unit) \<times> 'w \<times> event list" where
  "processMessages d messages w =
     (case handleEach d messages w of
        (r, w', evs) \<Rightarrow>
          (r, w', Log Debug [(''messageCount'', Num (length messages))] ''processing messages'' # evs))"

text \<open>
  The body of the \<^verbatim>\<open>while\<close> loop of \<^verbatim>\<open>start\<close>, from the log line to the two
  counters. It gives the new \<^verbatim>\<open>processedMessageCount\<close> and \<^verbatim>\<open>pollCount\<close>, or the
  error that left the loop.
\<close>

definition cycle :: "'w QueueDrainer \<Rightarrow> nat \<Rightarrow> nat \<Rightarrow> 'w \<Rightarrow> (error + nat \<times> nat) \<times> 'w \<times> event list" where
  "cycle d processedMessageCount pollCount w =
     (let polling =
            Log (if pollCount mod 5 = 0 then Info else Debug)
              [(''pollCount'', Num pollCount), (''processedMessageCount'', Num processedMessageCount)]
              ''polling...''
      in case poll d 10 w of
           (Inl err, w1, evs1) \<Rightarrow> (Inl err, w1, polling # evs1)
         | (Inr messages, w1, evs1) \<Rightarrow>
             (case processMessages d messages w1 of
                (Inl err, w2, evs2) \<Rightarrow> (Inl err, w2, polling # evs1 @ evs2)
              | (Inr u, w2, evs2) \<Rightarrow>
                  (case deleteMessages d messages w2 of
                     (Inl err, w3, evs3) \<Rightarrow> (Inl err, w3, polling # evs1 @ evs2 @ evs3)
                   | (Inr u', w3, evs3) \<Rightarrow>
                       (Inr (processedMessageCount + length messages, pollCount + 1), w3,
                        polling # evs1 @ evs2 @ evs3))))"

text \<open>
  The \<^verbatim>\<open>while\<close> loop. Nothing in the code bounds the number of iterations (the timer
  is the caller's), so the model takes fuel: the number of iterations it may start.
  The result is \<open>None\<close> when the fuel is used up with the loop still running,
  \<open>Some (Inr ())\<close> when the guard ended the loop and \<open>Some (Inl err)\<close> when an error
  left it. The counters are the values of the two local variables at that point.
\<close>

fun drain :: "nat \<Rightarrow> 'w QueueDrainer \<Rightarrow> nat \<Rightarrow> nat \<Rightarrow> 'w \<Rightarrow> (error + unit) option \<times> (nat \<times> nat) \<times> 'w \<times> event list" where
  "drain 0 d processedMessageCount pollCount w = (None, (processedMessageCount, pollCount), w, [])"
| "drain (Suc fuel) d processedMessageCount pollCount w =
     (case getRemainingTime d w of
        (t, w0) \<Rightarrow>
          if t > 3000 then
            (case cycle d processedMessageCount pollCount w0 of
               (Inl err, w1, evs) \<Rightarrow>
                 (Some (Inl err), (processedMessageCount, pollCount), w1, GetRemainingTime t # evs)
             | (Inr (processedMessageCount', pollCount'), w1, evs) \<Rightarrow>
                 (case drain fuel d processedMessageCount' pollCount' w1 of
                    (r, counters, w2, evs') \<Rightarrow> (r, counters, w2, GetRemainingTime t # evs @ evs')))
          else (Some (Inr ()), (processedMessageCount, pollCount), w0, [GetRemainingTime t]))"

definition start :: "nat \<Rightarrow> 'w QueueDrainer \<Rightarrow> 'w \<Rightarrow> (error + unit) option \<times> 'w \<times> event list" where
  "start fuel d w =
     (case drain fuel d 0 0 w of
        (Some (Inr u), (processedMessageCount, pollCount), w', evs) \<Rightarrow>
          (Some (Inr ()), w',
           evs @ [Log Debug [(''processedMessageCount'', Num processedMessageCount), (''pollCount'', Num pollCount)]
                    ''finished draining queue''])
      | (r, counters, w', evs) \<Rightarrow> (r, w', evs))"

subsection \<open>Reading a trace\<close>

text \<open>The messages the handler was invoked on, in order.\<close>

fun handlerCalls :: "event list \<Rightarrow> message list" where
  "handlerCalls [] = []"
| "handlerCalls (HandleMessage m # evs) = m # handlerCalls evs"
| "handlerCalls (e # evs) = handlerCalls evs"

text \<open>The number of \<^verbatim>\<open>receiveMessage\<close> requests.\<close>

fun pollCalls :: "event list \<Rightarrow> nat" where
  "pollCalls [] = 0"
| "pollCalls (ReceiveMessage q n # evs) = Suc (pollCalls evs)"
| "pollCalls (e # evs) = pollCalls evs"

text \<open>The values the timer returned, in order.\<close>

fun samples :: "event list \<Rightarrow> int list" where
  "samples [] = []"
| "samples (GetRemainingTime t # evs) = t # samples evs"
| "samples (e # evs) = samples evs"

text \<open>The batches \<^verbatim>\<open>poll\<close> returned, in order.\<close>

fun batches :: "event list \<Rightarrow> message list list" where
  "batches [] = []"
| "batches (Polled b # evs) = b # batches evs"
| "batches (e # evs) = batches evs"

text \<open>The entry lists of the \<^verbatim>\<open>deleteMessageBatch\<close> requests, in order.\<close>

fun deleteRequests :: "event list \<Rightarrow> entry list list" where
  "deleteRequests [] = []"
| "deleteRequests (DeleteMessageBatch q es # evs) = es # deleteRequests evs"
| "deleteRequests (e # evs) = deleteRequests evs"

text \<open>Every request to delete, single or batched.\<close>

fun deleteCalls :: "event list \<Rightarrow> event list" where
  "deleteCalls [] = []"
| "deleteCalls (DeleteMessage q h # evs) = DeleteMessage q h # deleteCalls evs"
| "deleteCalls (DeleteMessageBatch q es # evs) = DeleteMessageBatch q es # deleteCalls evs"
| "deleteCalls (e # evs) = deleteCalls evs"

text \<open>The log lines at one level.\<close>

fun logged :: "level \<Rightarrow> event list \<Rightarrow> string list" where
  "logged l [] = []"
| "logged l (Log l' fs line # evs) = (if l' = l then line # logged l evs else logged l evs)"
| "logged l (e # evs) = logged l evs"

text \<open>
  The guard of the loop, read off a trace: \<open>armed\<close> says that the last thing the loop
  did, polls and samples only counted, was to sample a remaining time above 3000. A
  poll needs it and uses it up.
\<close>

fun guarded :: "bool \<Rightarrow> event list \<Rightarrow> bool" where
  "guarded armed [] = True"
| "guarded armed (GetRemainingTime t # evs) = guarded (3000 < t) evs"
| "guarded armed (ReceiveMessage q n # evs) = (armed \<and> guarded False evs)"
| "guarded armed (e # evs) = guarded armed evs"

text \<open>
  The counters as the log shows them: every line that carries \<^verbatim>\<open>pollCount\<close> or
  \<^verbatim>\<open>processedMessageCount\<close> carries the number of batches polled before it and the
  number of messages in them.
\<close>

definition shows_field :: "(string \<times> field) list \<Rightarrow> string \<Rightarrow> nat \<Rightarrow> bool" where
  "shows_field fs name v = (case map_of fs name of None \<Rightarrow> True | Some x \<Rightarrow> x = Num v)"

fun countersLogged :: "nat \<Rightarrow> nat \<Rightarrow> event list \<Rightarrow> bool" where
  "countersLogged polls msgs [] = True"
| "countersLogged polls msgs (Polled b # evs) = countersLogged (polls + 1) (msgs + length b) evs"
| "countersLogged polls msgs (Log l fs line # evs) =
     (shows_field fs ''pollCount'' polls \<and> shows_field fs ''processedMessageCount'' msgs \<and>
      countersLogged polls msgs evs)"
| "countersLogged polls msgs (e # evs) = countersLogged polls msgs evs"

subsection \<open>A scripted queue, handler and timer\<close>

text \<open>
  Collaborators for concrete runs. The world holds the values the timer will return,
  the answers of the coming \<^verbatim>\<open>receiveMessage\<close> calls and the answers of the coming
  \<^verbatim>\<open>deleteMessageBatch\<close> calls. With no answer left the queue reports no messages,
  the delete succeeds and the timer is at 0. The handler rejects a message whose
  body is \<^verbatim>\<open>poison\<close>.
\<close>

record world =
  times :: "int list"
  inbox :: "(error + message list option) list"
  deleteAnswers :: "(error + string list) list"

definition scriptedSQS :: "world SQS" where
  "scriptedSQS =
     \<lparr>sqs_receiveMessage =
        (\<lambda>q n w. case inbox w of [] \<Rightarrow> (Inr None, w) | r # rs \<Rightarrow> (r, w\<lparr>inbox := rs\<rparr>)),
      sqs_deleteMessage = (\<lambda>q h w. (Inr (), w)),
      sqs_deleteMessageBatch =
        (\<lambda>q es w. case deleteAnswers w of [] \<Rightarrow> (Inr [], w) | a # as \<Rightarrow> (a, w\<lparr>deleteAnswers := as\<rparr>))\<rparr>"

definition scripted :: "world QueueDrainer" where
  "scripted =
     \<lparr>sqs = scriptedSQS,
      queueUrl = ''queue'',
      handleMessage =
        (\<lambda>m w. if Body m = Some ''poison'' then (Inl (Error ''handler failed''), w) else (Inr (), w)),
      getRemainingTime =
        (\<lambda>w. case times w of [] \<Rightarrow> (0, w) | t # ts \<Rightarrow> (t, w\<lparr>times := ts\<rparr>))\<rparr>"

definition msg :: "string \<Rightarrow> string \<Rightarrow> message" where
  "msg i body = \<lparr>MessageId = Some i, ReceiptHandle = Some (''rh-'' @ i), Body = Some body\<rparr>"

text \<open>
  Four worlds. In \<open>demo\<close> the queue holds one batch of two messages and is empty after
  it. In \<open>outage\<close> the transport rejects the batched delete. In \<open>emptyQueue\<close> the
  queue has no message and the transport rejects a batched delete, as the service does
  for a request with no entries. In \<open>untagged\<close> the queue delivers a message that has
  no receipt handle.
\<close>

definition demo :: world where
  "demo = \<lparr>times = [10000, 6000, 2000],
            inbox = [Inr (Some [msg ''1'' ''a'', msg ''2'' ''b'']), Inr None],
            deleteAnswers = []\<rparr>"

definition outage :: world where
  "outage = \<lparr>times = [10000, 6000, 2000],
              inbox = [Inr (Some [msg ''1'' ''a'', msg ''2'' ''b'', msg ''3'' ''c''])],
              deleteAnswers = [Inl (Error ''ServiceUnavailable'')]\<rparr>"

definition emptyQueue :: world where
  "emptyQueue = \<lparr>times = [10000, 6000, 2000],
                  inbox = [],
                  deleteAnswers = [Inl (Error ''EmptyBatchRequest'')]\<rparr>"


section \<open>The authorizer (the handler that exports \<^verbatim>\<open>authorize\<close>)\<close>

subsection \<open>Data\<close>

text \<open>What \<^verbatim>\<open>crud.get\<close> resolves to when the key exists.\<close>

record apiKey =
  secret :: string
  user :: string
  scopes :: "string list"

text \<open>
  The argument of \<^verbatim>\<open>generatePolicy\<close> when it is not \<^verbatim>\<open>null\<close>, and the \<^verbatim>\<open>context\<close>
  object of a policy: \<^verbatim>\<open>{ user, scope }\<close>.
\<close>

record authContext =
  user :: string
  scope :: string

record statement =
  Action :: string
  Effect :: string
  Resource :: string

record policyDocument =
  Version :: string
  Statement :: "statement list"

text \<open>
  The object \<^verbatim>\<open>generatePolicy\<close> returns. The spread puts \<^verbatim>\<open>principalId\<close> and
  \<^verbatim>\<open>context\<close> into it only for a result that is not \<^verbatim>\<open>null\<close>; \<open>None\<close> is a key that
  is absent.
\<close>

record policy =
  principalId :: "string option"
  policyContext :: "authContext option"
  policyDocument :: policyDocument

text \<open>A header's value: the code asks whether it is a string.\<close>

datatype jsvalue = Str string | NotAString

text \<open>
  The event, as far as the handler reads it: the headers in the order of
  \<^verbatim>\<open>Object.keys\<close>, or \<open>None\<close> when \<^verbatim>\<open>event.headers\<close> is \<^verbatim>\<open>null\<close> or \<^verbatim>\<open>undefined\<close>.
\<close>

record authorizerEvent =
  headers :: "(string \<times> jsvalue) list option"

text \<open>A key of the JWKS document: \<^verbatim>\<open>kty\<close>, \<^verbatim>\<open>n\<close> and \<^verbatim>\<open>e\<close>.\<close>

datatype jwk = Jwk string string string

text \<open>
  What the handler calls outside itself. \<open>getJwks\<close> is the settled (cached) promise: the
  \<^verbatim>\<open>keys\<close> array, or the rejection, which also stands for a document that has no
  \<^verbatim>\<open>keys\<close>. \<open>jwkToPem\<close> may throw. \<open>verify\<close> is \<^verbatim>\<open>jwt.verify\<close> with the issuer and
  audience of the environment: it calls back with an error or with the decoded
  \<^verbatim>\<open>sub\<close> and \<^verbatim>\<open>scope\<close>. \<open>crud_get\<close> is \<^verbatim>\<open>crud.get\<close>: a rejection, no key, or the key.
\<close>

record authorizerEnv =
  getJwks :: "error + jwk list"
  jwkToPem :: "jwk \<Rightarrow> error + string"
  verify :: "string \<Rightarrow> string \<Rightarrow> error + string \<times> string"
  crud_get :: "string \<Rightarrow> error + apiKey option"

subsection \<open>String functions of the runtime\<close>

text \<open>
  \<^verbatim>\<open>toLowerCase\<close> on the letters A to Z; the model's strings are bytes, and every other
  byte is kept.
\<close>

definition toLowerCase :: "string \<Rightarrow> string" where
  "toLowerCase s =
     map (\<lambda>c. if (65::nat) \<le> of_char c \<and> of_char c \<le> (90::nat) then char_of (of_char c + (32::nat)) else c) s"

text \<open>\<^verbatim>\<open>s.split(sep)\<close> for a separator of one character: never an empty list.\<close>

fun split_on :: "char \<Rightarrow> string \<Rightarrow> string list" where
  "split_on sep [] = [[]]"
| "split_on sep (c # cs) =
     (if c = sep then [] # split_on sep cs
      else (case split_on sep cs of [] \<Rightarrow> [[c]] | p # ps \<Rightarrow> (c # p) # ps))"

text \<open>\<^verbatim>\<open>xs.join(sep)\<close>.\<close>

fun join :: "string \<Rightarrow> string list \<Rightarrow> string" where
  "join sep [] = []"
| "join sep [x] = x"
| "join sep (x # y # ys) = x @ sep @ join sep (y # ys)"

subsection \<open>The handler\<close>

definition generatePolicy :: "authContext option \<Rightarrow> policy" where
  "generatePolicy result =
     \<lparr>principalId = (case result of None \<Rightarrow> None | Some r \<Rightarrow> Some (authContext.user r)),
      policyContext =
        (case result of None \<Rightarrow> None
         | Some r \<Rightarrow> Some \<lparr>user = authContext.user r, scope = scope r\<rparr>),
      policyDocument =
        \<lparr>Version = ''2012-10-17'',
         Statement = [\<lparr>Action = ''execute-api:Invoke'', Effect = ''Allow'', Resource = ''*''\<rparr>]\<rparr>\<rparr>"

text \<open>
  The two local functions that call \<^verbatim>\<open>cb(null, ...)\<close>. The handler's result is
  \<open>Inr\<close> the policy the callback got, or \<open>Inl\<close> the rejection of the \<^verbatim>\<open>async\<close>
  function when it ended without calling back.
\<close>

definition unauthorized :: "error + policy" where
  "unauthorized = Inr (generatePolicy None)"

definition authorized :: "string \<Rightarrow> string \<Rightarrow> error + policy" where
  "authorized u s = Inr (generatePolicy (Some \<lparr>user = u, scope = s\<rparr>))"

text \<open>
  Everything in \<^verbatim>\<open>authorizeBearer\<close> is inside one \<^verbatim>\<open>try\<close>: a rejected JWKS promise,
  an empty \<^verbatim>\<open>keys\<close> array (destructuring \<^verbatim>\<open>undefined\<close> throws) and a throwing
  \<^verbatim>\<open>jwkToPem\<close> all end in \<^verbatim>\<open>unauthorized()\<close>.
\<close>

definition authorizeBearer :: "authorizerEnv \<Rightarrow> string \<Rightarrow> error + policy" where
  "authorizeBearer env token =
     (case getJwks env of
        Inl err \<Rightarrow> unauthorized
      | Inr keys \<Rightarrow>
          (case keys of
             [] \<Rightarrow> unauthorized
           | k # ks \<Rightarrow>
               (case jwkToPem env k of
                  Inl err \<Rightarrow> unauthorized
                | Inr pem \<Rightarrow>
                    (case verify env token pem of
                       Inl err \<Rightarrow> unauthorized
                     | Inr (sub, sc) \<Rightarrow> authorized sub sc))))"

text \<open>
  \<^verbatim>\<open>authorizeApiKey\<close> has no \<^verbatim>\<open>try\<close>: a rejected \<^verbatim>\<open>crud.get\<close> rejects the handler. The
  secret of the token is \<^verbatim>\<open>undefined\<close> when the token has no colon.
\<close>

definition authorizeApiKey :: "authorizerEnv \<Rightarrow> string \<Rightarrow> error + policy" where
  "authorizeApiKey env token =
     (case split_on CHR '':'' token of
        [] \<Rightarrow> Inl (Error ''TypeError'')
      | keyId # rest \<Rightarrow>
          (let given = (case rest of [] \<Rightarrow> None | s # ss \<Rightarrow> Some s)
           in case crud_get env keyId of
                Inl err \<Rightarrow> Inl err
              | Inr None \<Rightarrow> unauthorized
              | Inr (Some retrievedKey) \<Rightarrow>
                  if Some (secret retrievedKey) \<noteq> given then unauthorized
                  else authorized (apiKey.user retrievedKey) (join '' '' (scopes retrievedKey))))"

definition authorize :: "authorizerEnv \<Rightarrow> authorizerEvent \<Rightarrow> error + policy" where
  "authorize env ev =
     (case headers ev of
        None \<Rightarrow> Inl (Error ''TypeError'')
      | Some hs \<Rightarrow>
          (let lowered = fold (\<lambda>(header, v) acc. acc(toLowerCase header \<mapsto> v)) hs Map.empty
           in case lowered ''authorization'' of
                None \<Rightarrow> unauthorized
              | Some NotAString \<Rightarrow> unauthorized
              | Some (Str authorization) \<Rightarrow>
                  if authorization = [] then unauthorized
                  else
                    (case split_on CHR '' '' authorization of
                       [authType, token] \<Rightarrow>
                         if toLowerCase authType = ''bearer'' then authorizeBearer env token
                         else if toLowerCase authType = ''api-key'' then authorizeApiKey env token
                         else unauthorized
                     | _ \<Rightarrow> unauthorized)))"

subsection \<open>A key store and two requests\<close>

text \<open>
  Collaborators for concrete calls: one JWKS key, a verifier that accepts the token
  \<^verbatim>\<open>good\<close>, and a key table that holds the key \<^verbatim>\<open>k1\<close>, rejects a lookup of \<^verbatim>\<open>down\<close>
  and has no other key.
\<close>

definition keyStore :: authorizerEnv where
  "keyStore =
     \<lparr>getJwks = Inr [Jwk ''RSA'' ''n'' ''AQAB''],
      jwkToPem = (\<lambda>k. Inr ''pem''),
      verify = (\<lambda>token pem. if token = ''good'' then Inr (''alice'', ''read write'') else Inl (Error ''invalid token'')),
      crud_get = (\<lambda>keyId. if keyId = ''k1'' then Inr (Some \<lparr>secret = ''s3cret'', user = ''bob'', scopes = [''read'', ''write'']\<rparr>)
                          else if keyId = ''down'' then Inl (Error ''dynamo'') else Inr None)\<rparr>"

definition apiKeyRequest :: authorizerEvent where
  "apiKeyRequest = \<lparr>headers = Some [(''Authorization'', Str ''Api-Key k1:s3cret'')]\<rparr>"

definition badTokenRequest :: authorizerEvent where
  "badTokenRequest = \<lparr>headers = Some [(''AUTHORIZATION'', Str ''bearer bad'')]\<rparr>"

section \<open>Processing a batch\<close>

lemma handleEach_resolved:
  "handleEach d ms w = (Inr u, w', evs) \<Longrightarrow>
   evs = concat (map (\<lambda>m. [HandleMessage m, Handled m]) ms)"
  by (induction ms arbitrary: w w' evs) (auto split: prod.splits sum.splits)

lemma handlerCalls_pairs: "handlerCalls (concat (map (\<lambda>m. [HandleMessage m, Handled m]) ms)) = ms"
  by (induction ms) auto



section \<open>A handler failure\<close>

lemma handleEach_rejected:
  "i < length ms \<Longrightarrow> handleEach d (take i ms) w = (Inr u, w2, evs0) \<Longrightarrow>
   handleMessage d (ms ! i) w2 = (Inl err, w3) \<Longrightarrow>
   handleEach d ms w = (Inl err, w3, evs0 @ [HandleMessage (ms ! i)])"
proof (induction ms arbitrary: i w evs0)
  case Nil
  then show ?case by simp
next
  case (Cons m ms)
  show ?case
  proof (cases i)
    case 0
    with Cons.prems show ?thesis by simp
  next
    case (Suc j)
    with Cons.prems obtain w1 where m: "handleMessage d m w = (Inr (), w1)"
      by (auto split: prod.splits sum.splits)
    with Cons.prems Suc obtain evs1 where
      rest: "handleEach d (take j ms) w1 = (Inr u, w2, evs1)" and evs0: "evs0 = HandleMessage m # Handled m # evs1"
      by (auto split: prod.splits sum.splits)
    from Cons.prems Suc have "j < length ms" "handleMessage d (ms ! j) w2 = (Inl err, w3)" by simp_all
    from Cons.IH [OF this(1) rest this(2)] m evs0 Suc show ?thesis by simp
  qed
qed

lemma handlerCalls_append: "handlerCalls (xs @ ys) = handlerCalls xs @ handlerCalls ys"
  by (induction xs rule: handlerCalls.induct) auto

lemma deleteCalls_append: "deleteCalls (xs @ ys) = deleteCalls xs @ deleteCalls ys"
  by (induction xs rule: deleteCalls.induct) auto

lemma deleteCalls_handleEach: "handleEach d ms w = (r, w', evs) \<Longrightarrow> deleteCalls evs = []"
  by (induction ms arbitrary: w r w' evs) (auto split: prod.splits sum.splits)

lemma deleteCalls_poll: "poll d n w = (r, w', evs) \<Longrightarrow> deleteCalls evs = []"
  by (auto simp: poll_def Let_def split: prod.splits sum.splits)

lemma handlerCalls_poll: "poll d n w = (r, w', evs) \<Longrightarrow> handlerCalls evs = []"
  by (auto simp: poll_def Let_def split: prod.splits sum.splits)

text \<open>
  C2. Take any iteration of the loop: the timer is above 3000, the poll returns a batch
  of \<open>n\<close> messages, the handler resolves on the first \<open>k - 1\<close> of them and rejects on
  the \<open>k\<close>-th, for any \<open>k\<close> from 1 to \<open>n\<close>. Then \<^verbatim>\<open>processMessages\<close> rejects with
  the handler's error, so does the loop body and so does the loop; the handler was
  invoked on the messages 1 to \<open>k\<close> and on no other; and the iteration made no request
  to delete, batched or single, so every message of the batch stays on the queue.
\<close>

theorem handler_failure_skips_rest_and_delete:
  assumes k: "1 \<le> k" "k \<le> length messages"
    and sample: "getRemainingTime d w = (t, w0)" "3000 < t"
    and polled: "poll d 10 w0 = (Inr messages, w1, evs1)"
    and before: "handleEach d (take (k - 1) messages) w1 = (Inr (), w2, evs2)"
    and fails: "handleMessage d (messages ! (k - 1)) w2 = (Inl err, w3)"
  shows "fst (processMessages d messages w1) = Inl err
       \<and> handlerCalls (snd (snd (processMessages d messages w1))) = take k messages
       \<and> fst (cycle d processedMessageCount pollCount w0) = Inl err
       \<and> fst (drain (Suc fuel) d processedMessageCount pollCount w) = Some (Inl err)
       \<and> fst (snd (snd (drain (Suc fuel) d processedMessageCount pollCount w))) = w3
       \<and> handlerCalls (snd (snd (snd (drain (Suc fuel) d processedMessageCount pollCount w)))) = take k messages
       \<and> deleteCalls (snd (snd (snd (drain (Suc fuel) d processedMessageCount pollCount w)))) = []"
proof -
  from k have i: "k - 1 < length messages" and ki: "Suc (k - 1) = k" by simp_all
  have each: "handleEach d messages w1 = (Inl err, w3, evs2 @ [HandleMessage (messages ! (k - 1))])"
    by (rule handleEach_rejected [OF i before fails])
  from handleEach_resolved [OF before]
  have "handlerCalls evs2 = take (k - 1) messages" by (simp add: handlerCalls_pairs)
  with i ki have calls: "handlerCalls (evs2 @ [HandleMessage (messages ! (k - 1))]) = take k messages"
    by (simp add: handlerCalls_append take_Suc_conv_app_nth [symmetric])
  have nodel: "deleteCalls (evs2 @ [HandleMessage (messages ! (k - 1))]) = []"
    using deleteCalls_handleEach [OF before] by (simp add: deleteCalls_append)
  have p: "processMessages d messages w1 =
      (Inl err, w3, Log Debug [(''messageCount'', Num (length messages))] ''processing messages'' #
         evs2 @ [HandleMessage (messages ! (k - 1))])"
    using each by (simp add: processMessages_def)
  have c: "cycle d processedMessageCount pollCount w0 =
      (Inl err, w3,
       Log (if pollCount mod 5 = 0 then Info else Debug)
         [(''pollCount'', Num pollCount), (''processedMessageCount'', Num processedMessageCount)] ''polling...'' #
       evs1 @ Log Debug [(''messageCount'', Num (length messages))] ''processing messages'' #
         evs2 @ [HandleMessage (messages ! (k - 1))])"
    using polled p by (simp add: cycle_def Let_def)
  show ?thesis
    using sample p c calls nodel handlerCalls_poll [OF polled] deleteCalls_poll [OF polled]
    by (simp add: handlerCalls_append deleteCalls_append)
qed

theorem handler_failure_skips_rest_and_delete_witness:
  "fst (drain 1 scripted 0 0
      \<lparr>times = [10000], inbox = [Inr (Some [msg ''1'' ''a'', msg ''2'' ''poison'', msg ''3'' ''c''])],
       deleteAnswers = []\<rparr>) = Some (Inl (Error ''handler failed''))
   \<and> handlerCalls (snd (snd (snd (drain 1 scripted 0 0
      \<lparr>times = [10000], inbox = [Inr (Some [msg ''1'' ''a'', msg ''2'' ''poison'', msg ''3'' ''c''])],
       deleteAnswers = []\<rparr>)))) = [msg ''1'' ''a'', msg ''2'' ''poison'']
   \<and> deleteCalls (snd (snd (snd (drain 1 scripted 0 0
      \<lparr>times = [10000], inbox = [Inr (Some [msg ''1'' ''a'', msg ''2'' ''poison'', msg ''3'' ''c''])],
       deleteAnswers = []\<rparr>)))) = []"
proof -
  let ?ms = "[msg ''1'' ''a'', msg ''2'' ''poison'', msg ''3'' ''c'']"
  let ?begin = "\<lparr>times = [10000], inbox = [Inr (Some ?ms)], deleteAnswers = []\<rparr>"
  let ?sampled = "\<lparr>times = [], inbox = [Inr (Some ?ms)], deleteAnswers = []\<rparr>"
  let ?polled = "\<lparr>times = [], inbox = [], deleteAnswers = []\<rparr>"
  have k: "1 \<le> (2::nat)" "2 \<le> length ?ms" by simp_all
  have sample: "getRemainingTime scripted ?begin = (10000, ?sampled)" "(3000::int) < 10000"
    by (simp_all add: scripted_def)
  have polled: "poll scripted 10 ?sampled =
      (Inr ?ms, ?polled, [ReceiveMessage ''queue'' 10, Polled ?ms])"
    by (simp add: poll_def Let_def scripted_def scriptedSQS_def)
  have before: "handleEach scripted (take (2 - 1) ?ms) ?polled =
      (Inr (), ?polled, [HandleMessage (msg ''1'' ''a''), Handled (msg ''1'' ''a'')])"
    by (simp add: scripted_def msg_def)
  have fails: "handleMessage scripted (?ms ! (2 - 1)) ?polled = (Inl (Error ''handler failed''), ?polled)"
    by (simp add: scripted_def msg_def)
  from handler_failure_skips_rest_and_delete [OF k sample polled before fails, of 0 0 0]
  show ?thesis by simp
qed

section \<open>The shape of a trace\<close>

subsection \<open>Readers and append\<close>

lemma pollCalls_append: "pollCalls (xs @ ys) = pollCalls xs + pollCalls ys"
  by (induction xs rule: pollCalls.induct) auto

lemma samples_append: "samples (xs @ ys) = samples xs @ samples ys"
  by (induction xs rule: samples.induct) auto

lemma batches_append: "batches (xs @ ys) = batches xs @ batches ys"
  by (induction xs rule: batches.induct) auto

lemma deleteRequests_append: "deleteRequests (xs @ ys) = deleteRequests xs @ deleteRequests ys"
  by (induction xs rule: deleteRequests.induct) auto

text \<open>What the loop over a batch leaves in the trace: handler events only.\<close>

lemma handleEach_quiet:
  "handleEach d ms w = (r, w', evs) \<Longrightarrow>
   pollCalls evs = 0 \<and> samples evs = [] \<and> batches evs = [] \<and> deleteRequests evs = []
   \<and> guarded a (evs @ rest) = guarded a rest
   \<and> countersLogged p m (evs @ rest) = countersLogged p m rest"
  by (induction ms arbitrary: w r w' evs) (auto split: prod.splits sum.splits)

lemma poll_rejected: "poll d n w = (Inl err, w', evs) \<Longrightarrow> evs = [ReceiveMessage (queueUrl d) n]"
  by (auto simp: poll_def Let_def split: prod.splits sum.splits)

lemma poll_resolved:
  "poll d n w = (Inr b, w', evs) \<Longrightarrow> evs = [ReceiveMessage (queueUrl d) n, Polled b]"
  by (auto simp: poll_def Let_def split: prod.splits sum.splits)

lemma processMessages_events:
  "processMessages d b w = (r, w', evs) \<Longrightarrow>
   \<exists>hs. handleEach d b w = (r, w', hs) \<and>
     evs = Log Debug [(''messageCount'', Num (length b))] ''processing messages'' # hs"
  by (auto simp: processMessages_def split: prod.splits)

lemma deleteMessages_rejected:
  "deleteMessages d b w = (Inl err, w', evs) \<Longrightarrow>
   evs = [Log Debug [(''messageCount'', Num (length b))] ''deleting messages'',
          DeleteMessageBatch (queueUrl d) (Entries b)]"
  by (auto simp: deleteMessages_def split: prod.splits sum.splits)

lemma deleteMessages_resolved:
  "deleteMessages d b w = (Inr u, w', evs) \<Longrightarrow>
   evs = [Log Debug [(''messageCount'', Num (length b))] ''deleting messages'',
          DeleteMessageBatch (queueUrl d) (Entries b),
          Log Debug [(''messageCount'', Num (length b))] ''deleted messages'']"
  by (auto simp: deleteMessages_def split: prod.splits sum.splits)

text \<open>The shapes of one pass through the loop body.\<close>

lemma cycle_cases:
  assumes "cycle d pmc pc w = (r, w', evs)"
  obtains
    (poll_failed) err where "r = Inl err"
      "evs = [Log (if pc mod 5 = 0 then Info else Debug)
               [(''pollCount'', Num pc), (''processedMessageCount'', Num pmc)] ''polling...'',
              ReceiveMessage (queueUrl d) 10]"
  | (handler_failed) err b w1 w2 hs where "r = Inl err"
      "handleEach d b w1 = (Inl err, w2, hs)"
      "evs = [Log (if pc mod 5 = 0 then Info else Debug)
               [(''pollCount'', Num pc), (''processedMessageCount'', Num pmc)] ''polling...'',
              ReceiveMessage (queueUrl d) 10, Polled b,
              Log Debug [(''messageCount'', Num (length b))] ''processing messages''] @ hs"
  | (delete_failed) err b w1 w2 hs where "r = Inl err"
      "handleEach d b w1 = (Inr (), w2, hs)"
      "evs = [Log (if pc mod 5 = 0 then Info else Debug)
               [(''pollCount'', Num pc), (''processedMessageCount'', Num pmc)] ''polling...'',
              ReceiveMessage (queueUrl d) 10, Polled b,
              Log Debug [(''messageCount'', Num (length b))] ''processing messages''] @ hs @
             [Log Debug [(''messageCount'', Num (length b))] ''deleting messages'',
              DeleteMessageBatch (queueUrl d) (Entries b)]"
  | (completed) b w1 w2 hs where "r = Inr (pmc + length b, pc + 1)"
      "handleEach d b w1 = (Inr (), w2, hs)"
      "evs = [Log (if pc mod 5 = 0 then Info else Debug)
               [(''pollCount'', Num pc), (''processedMessageCount'', Num pmc)] ''polling...'',
              ReceiveMessage (queueUrl d) 10, Polled b,
              Log Debug [(''messageCount'', Num (length b))] ''processing messages''] @ hs @
             [Log Debug [(''messageCount'', Num (length b))] ''deleting messages'',
              DeleteMessageBatch (queueUrl d) (Entries b),
              Log Debug [(''messageCount'', Num (length b))] ''deleted messages'']"
proof -
  obtain r1 w1 e1 where p: "poll d 10 w = (r1, w1, e1)"
    by (cases "poll d 10 w") auto
  show thesis
  proof (cases r1)
    case (Inl err)
    with p have "e1 = [ReceiveMessage (queueUrl d) 10]" by (simp add: poll_rejected)
    with p Inl assms show thesis
      by (intro poll_failed [of err]) (auto simp: cycle_def Let_def)
  next
    case (Inr b)
    with p have e1: "e1 = [ReceiveMessage (queueUrl d) 10, Polled b]" by (simp add: poll_resolved)
    obtain r2 w2 e2 where pm: "processMessages d b w1 = (r2, w2, e2)"
      by (cases "processMessages d b w1") auto
    from processMessages_events [OF pm] obtain hs where
      hs: "handleEach d b w1 = (r2, w2, hs)"
        "e2 = Log Debug [(''messageCount'', Num (length b))] ''processing messages'' # hs"
      by blast
    show thesis
    proof (cases r2)
      case (Inl err)
      with p Inr e1 pm hs assms show thesis
        by (intro handler_failed [of err b w1 w2 hs]) (auto simp: cycle_def Let_def)
    next
      case ok: (Inr u)
      obtain r3 w3 e3 where dm: "deleteMessages d b w2 = (r3, w3, e3)"
        by (cases "deleteMessages d b w2") auto
      show thesis
      proof (cases r3)
        case (Inl err)
        with dm have "e3 = [Log Debug [(''messageCount'', Num (length b))] ''deleting messages'',
            DeleteMessageBatch (queueUrl d) (Entries b)]"
          by (simp add: deleteMessages_rejected)
        with p Inr e1 pm hs ok dm Inl assms show thesis
          by (intro delete_failed [of err b w1 w2 hs]) (auto simp: cycle_def Let_def)
      next
        case (Inr u')
        with dm have "e3 = [Log Debug [(''messageCount'', Num (length b))] ''deleting messages'',
            DeleteMessageBatch (queueUrl d) (Entries b),
            Log Debug [(''messageCount'', Num (length b))] ''deleted messages'']"
          by (simp add: deleteMessages_resolved)
        with p \<open>r1 = Inr b\<close> e1 pm hs ok dm Inr assms show thesis
          by (intro completed [of b w1 w2 hs]) (auto simp: cycle_def Let_def)
      qed
    qed
  qed
qed

lemma cycle_polls_once:
  assumes "cycle d pmc pc w = (r, w', evs)"
  shows "pollCalls evs = 1 \<and> samples evs = [] \<and> guarded a (evs @ rest) = (a \<and> guarded False rest)"
  using assms
proof (cases rule: cycle_cases)
  case (poll_failed err)
  then show ?thesis by simp
next
  case (handler_failed err b w1 w2 hs)
  note q = handleEach_quiet [OF handler_failed(2)]
  from handler_failed(3) show ?thesis
    by (simp add: pollCalls_append samples_append q)
next
  case (delete_failed err b w1 w2 hs)
  note q = handleEach_quiet [OF delete_failed(2)]
  from delete_failed(3) show ?thesis
    by (simp add: pollCalls_append samples_append q)
next
  case (completed b w1 w2 hs)
  note q = handleEach_quiet [OF completed(2)]
  from completed(3) show ?thesis
    by (simp add: pollCalls_append samples_append q)
qed

lemma cycle_completed:
  assumes "cycle d pmc pc w = (Inr (pmc', pc'), w', evs)"
  shows "\<exists>b. batches evs = [b] \<and> deleteRequests evs = [Entries b]
           \<and> pmc' = pmc + length b \<and> pc' = pc + 1"
    and "countersLogged pc pmc (evs @ rest) = countersLogged pc' pmc' rest"
proof -
  have "(\<exists>b. batches evs = [b] \<and> deleteRequests evs = [Entries b]
           \<and> pmc' = pmc + length b \<and> pc' = pc + 1)
        \<and> countersLogged pc pmc (evs @ rest) = countersLogged pc' pmc' rest"
    using assms
  proof (cases rule: cycle_cases)
    case (completed b w1 w2 hs)
    note q = handleEach_quiet [OF completed(2)]
    from completed(1,3) show ?thesis
      by (simp add: batches_append deleteRequests_append q shows_field_def)
  qed simp_all
  then show "\<exists>b. batches evs = [b] \<and> deleteRequests evs = [Entries b]
           \<and> pmc' = pmc + length b \<and> pc' = pc + 1"
    and "countersLogged pc pmc (evs @ rest) = countersLogged pc' pmc' rest" by simp_all
qed

lemma cycle_raised:
  assumes "cycle d pmc pc w = (Inl err, w', evs)"
  shows "(batches evs = [] \<and> deleteRequests evs = []) \<or>
         (\<exists>b. batches evs = [b] \<and> (deleteRequests evs = [] \<or> deleteRequests evs = [Entries b]))"
    and "countersLogged pc pmc evs"
proof -
  have "((batches evs = [] \<and> deleteRequests evs = []) \<or>
         (\<exists>b. batches evs = [b] \<and> (deleteRequests evs = [] \<or> deleteRequests evs = [Entries b])))
        \<and> countersLogged pc pmc evs"
    using assms
  proof (cases rule: cycle_cases)
    case (poll_failed e)
    then show ?thesis by (simp add: shows_field_def)
  next
    case (handler_failed e b w1 w2 hs)
    note q = handleEach_quiet [OF handler_failed(2)]
    have "countersLogged p m hs" for p m using q [where rest = "[]" and p = p and m = m] by simp
    with handler_failed(3) show ?thesis
      by (simp add: batches_append deleteRequests_append q shows_field_def)
  next
    case (delete_failed e b w1 w2 hs)
    note q = handleEach_quiet [OF delete_failed(2)]
    from delete_failed(3) show ?thesis
      by (simp add: batches_append deleteRequests_append q shows_field_def)
  next
    case (completed b w1 w2 hs)
    then show ?thesis by simp
  qed
  then show "(batches evs = [] \<and> deleteRequests evs = []) \<or>
         (\<exists>b. batches evs = [b] \<and> (deleteRequests evs = [] \<or> deleteRequests evs = [Entries b]))"
    and "countersLogged pc pmc evs" by simp_all
qed

text \<open>The three ways one more unit of fuel is spent.\<close>

lemma drain_Suc_cases:
  assumes "drain (Suc fuel) d pmc pc w = (r, cs, w', evs)"
  obtains
    (stop) t where "getRemainingTime d w = (t, w')" "\<not> 3000 < t"
      "r = Some (Inr ())" "cs = (pmc, pc)" "evs = [GetRemainingTime t]"
  | (raised) t w0 err cyc where "getRemainingTime d w = (t, w0)" "3000 < t"
      "cycle d pmc pc w0 = (Inl err, w', cyc)"
      "r = Some (Inl err)" "cs = (pmc, pc)" "evs = GetRemainingTime t # cyc"
  | (continue) t w0 pmc' pc' w1 cyc evs' where "getRemainingTime d w = (t, w0)" "3000 < t"
      "cycle d pmc pc w0 = (Inr (pmc', pc'), w1, cyc)"
      "drain fuel d pmc' pc' w1 = (r, cs, w', evs')" "evs = GetRemainingTime t # cyc @ evs'"
proof -
  obtain t w0 where g: "getRemainingTime d w = (t, w0)"
    by (cases "getRemainingTime d w") auto
  show thesis
  proof (cases "3000 < t")
    case False
    with g assms show thesis by (intro stop [of t]) auto
  next
    case True
    obtain rc w1 cyc where c: "cycle d pmc pc w0 = (rc, w1, cyc)"
      by (cases "cycle d pmc pc w0") auto
    show thesis
    proof (cases rc)
      case (Inl err)
      with g True c assms show thesis by (intro raised [of t w0 err cyc]) auto
    next
      case (Inr counters)
      obtain pmc' pc' where counters: "counters = (pmc', pc')" by (cases counters) auto
      obtain r' cs' w2 evs' where rest: "drain fuel d pmc' pc' w1 = (r', cs', w2, evs')"
        by (cases "drain fuel d pmc' pc' w1") auto
      with g True c Inr counters assms show thesis
        by (intro continue [of t w0 pmc' pc' w1 cyc evs']) auto
    qed
  qed
qed

lemma drain_guarded: "drain fuel d pmc pc w = (r, cs, w', evs) \<Longrightarrow> guarded a evs"
proof (induction fuel arbitrary: pmc pc w r cs w' evs a)
  case 0
  then show ?case by simp
next
  case (Suc fuel)
  from Suc.prems show ?case
  proof (cases rule: drain_Suc_cases)
    case (stop t)
    then show ?thesis by simp
  next
    case (raised t w0 err cyc)
    with cycle_polls_once [OF raised(3), of True "[]"] show ?thesis by simp
  next
    case (continue t w0 pmc' pc' w1 cyc evs')
    with cycle_polls_once [OF continue(3), of True evs'] Suc.IH [OF continue(4), of False]
    show ?thesis by simp
  qed
qed


lemma drain_counters:
  "drain fuel d pmc pc w = (r, (pmc', pc'), w', evs) \<Longrightarrow> r = None \<or> r = Some (Inr ()) \<Longrightarrow>
   pmc' = pmc + sum_list (map length (batches evs)) \<and> pc' = pc + length (batches evs)
   \<and> pollCalls evs = length (batches evs)
   \<and> (r = None \<longrightarrow> length (batches evs) = fuel)
   \<and> countersLogged pc pmc (evs @ rest) = countersLogged pc' pmc' rest"
proof (induction fuel arbitrary: pmc pc w evs)
  case 0
  then show ?case by simp
next
  case (Suc fuel)
  from Suc.prems(1) show ?case
  proof (cases rule: drain_Suc_cases)
    case (stop t)
    then show ?thesis by simp
  next
    case (raised t w0 err cyc)
    with Suc.prems(2) show ?thesis by simp
  next
    case (continue t w0 pmc1 pc1 w1 cyc evs')
    from cycle_completed(1) [OF continue(3)] obtain b where
      b: "batches cyc = [b]" "pmc1 = pmc + length b" "pc1 = pc + 1" by blast
    from cycle_completed(2) [OF continue(3)]
    have logged: "\<And>rest. countersLogged pc pmc (cyc @ rest) = countersLogged pc1 pmc1 rest" .
    from continue(5) b logged cycle_polls_once [OF continue(3)]
      Suc.IH [OF continue(4) Suc.prems(2)]
    show ?thesis by (simp add: batches_append pollCalls_append)
  qed
qed

lemma drain_countersLogged:
  "drain fuel d pmc pc w = (r, cs, w', evs) \<Longrightarrow> countersLogged pc pmc evs"
proof (induction fuel arbitrary: pmc pc w evs)
  case 0
  then show ?case by simp
next
  case (Suc fuel)
  from Suc.prems(1) show ?case
  proof (cases rule: drain_Suc_cases)
    case (stop t)
    then show ?thesis by simp
  next
    case (raised t w0 err cyc)
    with cycle_raised(2) [OF raised(3)] show ?thesis by simp
  next
    case (continue t w0 pmc1 pc1 w1 cyc evs')
    with cycle_completed(2) [OF continue(3), of evs'] Suc.IH [OF continue(4)]
    show ?thesis by simp
  qed
qed

lemma guarded_snoc_Log: "guarded a (xs @ [Log l fs line]) = guarded a xs"
  by (induction a xs rule: guarded.induct) auto

lemma start_cases:
  assumes "start fuel d w = (r, w', evs)"
  obtains
    (finished) pmc pc evs0 where "drain fuel d 0 0 w = (Some (Inr ()), (pmc, pc), w', evs0)"
      "r = Some (Inr ())"
      "evs = evs0 @ [Log Debug [(''processedMessageCount'', Num pmc), (''pollCount'', Num pc)]
                       ''finished draining queue'']"
  | (unfinished) cs where "drain fuel d 0 0 w = (r, cs, w', evs)" "r \<noteq> Some (Inr ())"
proof -
  obtain r0 pmc pc w0 evs0 where dr: "drain fuel d 0 0 w = (r0, (pmc, pc), w0, evs0)"
    by (cases "drain fuel d 0 0 w") auto
  show thesis
  proof (cases "r0 = Some (Inr ())")
    case True
    with dr assms show thesis by (intro finished [of pmc pc evs0]) (auto simp: start_def)
  next
    case False
    with dr assms show thesis
      by (intro unfinished [of "(pmc, pc)"]) (auto simp: start_def split: option.splits sum.splits)
  qed
qed

section \<open>The guard of the loop\<close>

lemma start_guarded: "guarded False (snd (snd (start fuel d w)))"
proof -
  obtain r w' evs where s: "start fuel d w = (r, w', evs)"
    by (cases "start fuel d w") auto
  then have "guarded False evs"
  proof (cases rule: start_cases)
    case (finished pmc pc evs0)
    with drain_guarded [OF finished(1), of False] show ?thesis by (simp add: guarded_snoc_Log)
  next
    case (unfinished cs)
    with drain_guarded [OF unfinished(1), of False] show ?thesis by simp
  qed
  with s show ?thesis by simp
qed

lemma drain_below_margin:
  "fst (getRemainingTime d w) \<le> 3000 \<Longrightarrow>
   drain (Suc fuel) d pmc pc w =
     (Some (Inr ()), (pmc, pc), snd (getRemainingTime d w), [GetRemainingTime (fst (getRemainingTime d w))])"
  by (cases "getRemainingTime d w") simp

lemma start_below_margin:
  assumes "fst (getRemainingTime d w) \<le> 3000"
  shows "start (Suc fuel) d w =
     (Some (Inr ()), snd (getRemainingTime d w),
      [GetRemainingTime (fst (getRemainingTime d w)),
       Log Debug [(''processedMessageCount'', Num 0), (''pollCount'', Num 0)] ''finished draining queue''])"
  unfolding start_def drain_below_margin [OF assms] by simp

text \<open>
  C3. In every run of \<^verbatim>\<open>start\<close>, however long, each poll is preceded by a sample of
  the remaining time that was above 3000, taken after the poll before it: an
  iteration is started only on such a sample. In particular, when the first sample
  is 3000 or less the run is over at once: it made no poll, and its whole trace is the
  sample and the closing log line, with both counters at 0. The same holds at the head
  of any later iteration, whatever the counters are.
\<close>

theorem iteration_needs_time_above_margin:
  "guarded False (snd (snd (start fuel d w)))
   \<and> (fst (getRemainingTime d w) \<le> 3000 \<longrightarrow>
        start (Suc fuel) d w =
          (Some (Inr ()), snd (getRemainingTime d w),
           [GetRemainingTime (fst (getRemainingTime d w)),
            Log Debug [(''processedMessageCount'', Num 0), (''pollCount'', Num 0)] ''finished draining queue''])
        \<and> pollCalls (snd (snd (start (Suc fuel) d w))) = 0)
   \<and> (fst (getRemainingTime d w) \<le> 3000 \<longrightarrow>
        drain (Suc fuel) d processedMessageCount pollCount w =
          (Some (Inr ()), (processedMessageCount, pollCount), snd (getRemainingTime d w),
           [GetRemainingTime (fst (getRemainingTime d w))]))"
proof (intro conjI impI)
  show "guarded False (snd (snd (start fuel d w)))" by (rule start_guarded)
next
  assume "fst (getRemainingTime d w) \<le> 3000"
  then show "start (Suc fuel) d w =
          (Some (Inr ()), snd (getRemainingTime d w),
           [GetRemainingTime (fst (getRemainingTime d w)),
            Log Debug [(''processedMessageCount'', Num 0), (''pollCount'', Num 0)] ''finished draining queue''])"
    by (rule start_below_margin)
next
  assume "fst (getRemainingTime d w) \<le> 3000"
  then show "pollCalls (snd (snd (start (Suc fuel) d w))) = 0"
    by (simp only: start_below_margin) simp
next
  assume "fst (getRemainingTime d w) \<le> 3000"
  then show "drain (Suc fuel) d processedMessageCount pollCount w =
          (Some (Inr ()), (processedMessageCount, pollCount), snd (getRemainingTime d w),
           [GetRemainingTime (fst (getRemainingTime d w))])"
    by (rule drain_below_margin)
qed

theorem iteration_needs_time_above_margin_witness:
  "fst (getRemainingTime scripted \<lparr>times = [3000], inbox = [Inr (Some [msg ''1'' ''a''])], deleteAnswers = []\<rparr>) \<le> 3000
   \<and> fst (start (Suc 0) scripted \<lparr>times = [3000], inbox = [Inr (Some [msg ''1'' ''a''])], deleteAnswers = []\<rparr>)
       = Some (Inr ())
   \<and> pollCalls (snd (snd (start (Suc 0) scripted
         \<lparr>times = [3000], inbox = [Inr (Some [msg ''1'' ''a''])], deleteAnswers = []\<rparr>))) = 0"
proof -
  have low: "fst (getRemainingTime scripted
      \<lparr>times = [3000], inbox = [Inr (Some [msg ''1'' ''a''])], deleteAnswers = []\<rparr>) \<le> 3000"
    by (simp add: scripted_def)
  from iteration_needs_time_above_margin [of 0 scripted
      "\<lparr>times = [3000], inbox = [Inr (Some [msg ''1'' ''a''])], deleteAnswers = []\<rparr>" 0 0] low
  show ?thesis by simp
qed

section \<open>Deleting a batch\<close>






section \<open>A timer that answers 10000, 6000, 2000\<close>

text \<open>
  C7. The timer answers 10000, then 6000, then 2000, and the two iterations that the
  first two answers start run to their end. Then, given fuel for three samples or more,
  \<^verbatim>\<open>start\<close> returns normally: its trace is the first sample and the first iteration,
  the second sample and the second iteration, the third sample and the closing log
  line with \<^verbatim>\<open>pollCount\<close> 2. It polled exactly twice and sampled exactly three times.
\<close>

theorem three_samples_two_cycles:
  assumes fuel: "3 \<le> n"
    and s1: "getRemainingTime d w = (10000, w1)"
    and c1: "cycle d 0 0 w1 = (Inr counters1, w2, evs1)"
    and s2: "getRemainingTime d w2 = (6000, w3)"
    and c2: "cycle d (fst counters1) (snd counters1) w3 = (Inr counters2, w4, evs2)"
    and s3: "getRemainingTime d w4 = (2000, w5)"
  shows "start n d w =
           (Some (Inr ()), w5,
            GetRemainingTime 10000 # evs1 @ GetRemainingTime 6000 # evs2 @
            [GetRemainingTime 2000,
             Log Debug [(''processedMessageCount'', Num (fst counters2)), (''pollCount'', Num 2)]
               ''finished draining queue''])
         \<and> pollCalls (snd (snd (start n d w))) = 2
         \<and> samples (snd (snd (start n d w))) = [10000, 6000, 2000]
         \<and> snd counters2 = 2"
proof -
  from fuel obtain fuel' where n: "n = Suc (Suc (Suc fuel'))"
    by (metis add_Suc_right add_Suc_shift le_Suc_ex numeral_3_eq_3)
  obtain pmc1 pc1 where k1: "counters1 = (pmc1, pc1)" by (cases counters1) auto
  obtain pmc2 pc2 where k2: "counters2 = (pmc2, pc2)" by (cases counters2) auto
  from cycle_completed(1) [OF c1 [unfolded k1]] have pc1: "pc1 = 1" by auto
  from cycle_completed(1) [OF c2 [unfolded k1 k2 fst_conv snd_conv]] pc1 have pc2: "pc2 = 2" by auto
  have third: "drain (Suc fuel') d pmc2 pc2 w4 = (Some (Inr ()), (pmc2, pc2), w5, [GetRemainingTime 2000])"
    using s3 by simp
  have second: "drain (Suc (Suc fuel')) d pmc1 pc1 w2 =
      (Some (Inr ()), (pmc2, pc2), w5, GetRemainingTime 6000 # evs2 @ [GetRemainingTime 2000])"
    using s2 c2 [unfolded k1 k2 fst_conv snd_conv] third by (simp del: drain.simps add: drain.simps(2) [of "Suc fuel'"])
  have first: "drain n d 0 0 w =
      (Some (Inr ()), (pmc2, pc2), w5,
       GetRemainingTime 10000 # evs1 @ GetRemainingTime 6000 # evs2 @ [GetRemainingTime 2000])"
    unfolding n using s1 c1 [unfolded k1] second
    by (simp del: drain.simps add: drain.simps(2) [of "Suc (Suc fuel')"])
  have run: "start n d w =
           (Some (Inr ()), w5,
            GetRemainingTime 10000 # evs1 @ GetRemainingTime 6000 # evs2 @
            [GetRemainingTime 2000,
             Log Debug [(''processedMessageCount'', Num (fst counters2)), (''pollCount'', Num 2)]
               ''finished draining queue''])"
    using first k2 pc2 by (simp add: start_def)
  from cycle_polls_once [OF c1, of True "[]"] cycle_polls_once [OF c2, of True "[]"]
  have "pollCalls evs1 = 1" "samples evs1 = []" "pollCalls evs2 = 1" "samples evs2 = []"
    by simp_all
  with run k2 pc2 show ?thesis
    by (simp add: pollCalls_append samples_append)
qed

theorem three_samples_two_cycles_witness:
  "fst (start 3 scripted demo) = Some (Inr ())
   \<and> pollCalls (snd (snd (start 3 scripted demo))) = 2
   \<and> samples (snd (snd (start 3 scripted demo))) = [10000, 6000, 2000]"
proof -
  let ?b = "[msg ''1'' ''a'', msg ''2'' ''b'']"
  let ?p = "demo\<lparr>times := [6000, 2000]\<rparr>"
  let ?q = "\<lparr>times = [6000, 2000], inbox = [Inr None], deleteAnswers = []\<rparr>"
  let ?r = "\<lparr>times = [2000], inbox = [Inr None], deleteAnswers = []\<rparr>"
  let ?s = "\<lparr>times = [2000], inbox = [], deleteAnswers = []\<rparr>"
  let ?t = "\<lparr>times = [], inbox = [], deleteAnswers = []\<rparr>"
  have s1: "getRemainingTime scripted demo = (10000, ?p)"
    by (simp add: scripted_def demo_def)
  have c1: "cycle scripted 0 0 ?p = (Inr (2, 1), ?q, snd (snd (cycle scripted 0 0 ?p)))"
    by (simp add: cycle_def poll_def processMessages_def deleteMessages_def Let_def
        scripted_def scriptedSQS_def demo_def msg_def)
  have s2: "getRemainingTime scripted ?q = (6000, ?r)"
    by (simp add: scripted_def)
  have c2: "cycle scripted (fst (2, 1)) (snd (2, 1)) ?r =
      (Inr (2, 2), ?s, snd (snd (cycle scripted 2 1 ?r)))"
    by (simp add: cycle_def poll_def processMessages_def deleteMessages_def Let_def
        scripted_def scriptedSQS_def)
  have s3: "getRemainingTime scripted ?s = (2000, ?t)"
    by (simp add: scripted_def)
  note run = three_samples_two_cycles [OF order_refl s1 c1 s2 c2 s3]
  from run have "fst (start 3 scripted demo) = Some (Inr ())" by (simp only: fst_conv)
  moreover from run have "pollCalls (snd (snd (start 3 scripted demo))) = 2" by blast
  moreover from run have "samples (snd (snd (start 3 scripted demo))) = [10000, 6000, 2000]" by blast
  ultimately show ?thesis by blast
qed

section \<open>The counters\<close>

text \<open>
  C8. Every log line of a run that shows the counters (the line at the head of each
  iteration and the closing line) shows as \<^verbatim>\<open>pollCount\<close> the number of batches
  polled before it and as \<^verbatim>\<open>processedMessageCount\<close> the number of messages in them.
  An iteration that runs to its end adds 1 to \<^verbatim>\<open>pollCount\<close> and the length of its
  batch, which may be 0, to \<^verbatim>\<open>processedMessageCount\<close>. So whenever the loop is at
  its head after \<open>fuel\<close> iterations, or has ended on the guard, \<^verbatim>\<open>pollCount\<close> is the
  number of iterations made, one per polled batch, and \<^verbatim>\<open>processedMessageCount\<close> is
  the sum of the batches' lengths.
\<close>

theorem counters_follow_polled_batches:
  "countersLogged 0 0 (snd (snd (start fuel d w)))
   \<and> (cycle d processedMessageCount pollCount w = (Inr (processedMessageCount', pollCount'), w', evs) \<longrightarrow>
        (\<exists>b. batches evs = [b] \<and> processedMessageCount' = processedMessageCount + length b)
        \<and> pollCount' = pollCount + 1)
   \<and> (drain fuel d processedMessageCount pollCount w = (r, (processed, polls), w2, evs2)
        \<and> (r = None \<or> r = Some (Inr ())) \<longrightarrow>
        processed = processedMessageCount + sum_list (map length (batches evs2))
        \<and> polls = pollCount + length (batches evs2)
        \<and> pollCalls evs2 = length (batches evs2)
        \<and> (r = None \<longrightarrow> length (batches evs2) = fuel))"
proof (intro conjI impI)
  obtain r0 w0 evs0 where s: "start fuel d w = (r0, w0, evs0)"
    by (cases "start fuel d w") auto
  then have "countersLogged 0 0 evs0"
  proof (cases rule: start_cases)
    case (finished pmc pc es)
    from drain_counters [OF finished(1), of
        "[Log Debug [(''processedMessageCount'', Num pmc), (''pollCount'', Num pc)] ''finished draining queue'']"]
    have "countersLogged 0 0
        (es @ [Log Debug [(''processedMessageCount'', Num pmc), (''pollCount'', Num pc)] ''finished draining queue''])
      = countersLogged pc pmc
        [Log Debug [(''processedMessageCount'', Num pmc), (''pollCount'', Num pc)] ''finished draining queue'']"
      by blast
    also have "\<dots> = True" by (simp add: shows_field_def)
    finally show ?thesis using finished(3) by simp
  next
    case (unfinished cs)
    with drain_countersLogged [OF unfinished(1)] show ?thesis by simp
  qed
  with s show "countersLogged 0 0 (snd (snd (start fuel d w)))" by simp
next
  assume c: "cycle d processedMessageCount pollCount w = (Inr (processedMessageCount', pollCount'), w', evs)"
  from cycle_completed(1) [OF c]
  show "\<exists>b. batches evs = [b] \<and> processedMessageCount' = processedMessageCount + length b" by blast
  from cycle_completed(1) [OF c] show "pollCount' = pollCount + 1" by blast
next
  assume a: "drain fuel d processedMessageCount pollCount w = (r, (processed, polls), w2, evs2)
        \<and> (r = None \<or> r = Some (Inr ()))"
  then have dr: "drain fuel d processedMessageCount pollCount w = (r, (processed, polls), w2, evs2)"
    and nr: "r = None \<or> r = Some (Inr ())" by simp_all
  note k = drain_counters [OF dr nr, of "[]"]
  from k show "processed = processedMessageCount + sum_list (map length (batches evs2))" by simp
  from k show "polls = pollCount + length (batches evs2)" by simp
  from k show "pollCalls evs2 = length (batches evs2)" by simp
  assume "r = None"
  with k show "length (batches evs2) = fuel" by simp
qed

theorem counters_follow_polled_batches_witness:
  "fst (drain 3 scripted 0 0 demo) = Some (Inr ())
   \<and> batches (snd (snd (snd (drain 3 scripted 0 0 demo)))) = [[msg ''1'' ''a'', msg ''2'' ''b''], []]
   \<and> fst (snd (drain 3 scripted 0 0 demo)) = (2, 2)
   \<and> fst (cycle scripted 2 1 \<lparr>times = [2000], inbox = [Inr None], deleteAnswers = []\<rparr>) = Inr (2, 2)
   \<and> countersLogged 0 0 (snd (snd (start 3 scripted demo)))"
proof -
  let ?quiet = "\<lparr>times = [2000], inbox = [Inr None], deleteAnswers = []\<rparr>"
  obtain r p c w2 evs2 where dr: "drain 3 scripted 0 0 demo = (r, (p, c), w2, evs2)"
    by (cases "drain 3 scripted 0 0 demo") auto
  have "fst (drain 3 scripted 0 0 demo) = Some (Inr ())"
    and "batches (snd (snd (snd (drain 3 scripted 0 0 demo)))) = [[msg ''1'' ''a'', msg ''2'' ''b''], []]"
    by code_simp+
  with dr have r: "r = Some (Inr ())" and b: "batches evs2 = [[msg ''1'' ''a'', msg ''2'' ''b''], []]"
    by simp_all
  obtain w' evs where cy: "cycle scripted 2 1 ?quiet = (Inr (2, 2), w', evs)"
    by (simp add: cycle_def poll_def processMessages_def deleteMessages_def Let_def
        scripted_def scriptedSQS_def)
  note t = counters_follow_polled_batches [where fuel = 3 and d = scripted and w = demo
      and processedMessageCount = 0 and pollCount = 0 and r = r and processed = p and polls = c
      and ?w2.0 = w2 and ?evs2.0 = evs2]
  from t dr r b have "p = 2" "c = 2" by simp_all
  moreover from t have "countersLogged 0 0 (snd (snd (start 3 scripted demo)))" by blast
  ultimately show ?thesis using dr r b cy by simp
qed

section \<open>Rejected deletes, missing handles, empty batches\<close>

lemma deleteMessages_propagates:
  assumes "fst (sqs_deleteMessageBatch (sqs d) (queueUrl d) (Entries messages) w) = Inl err"
  shows "fst (deleteMessages d messages w) = Inl err"
    and "logged Err (snd (snd (deleteMessages d messages w))) = []"
  using assms
  by (cases "sqs_deleteMessageBatch (sqs d) (queueUrl d) (Entries messages) w";
      simp add: deleteMessages_def)+

lemma deleteMessage_swallows:
  assumes "ReceiptHandle m = Some h" "h \<noteq> []"
    and "fst (sqs_deleteMessage (sqs d) (queueUrl d) h w) = Inl err"
  shows "fst (deleteMessage d m w) = Inr ()"
    and "logged Err (snd (snd (deleteMessage d m w))) = [''failed to delete message'']"
  using assms
  by (cases "sqs_deleteMessage (sqs d) (queueUrl d) h w"; simp add: deleteMessage_def)+

lemma deleteMessage_needs_handle:
  "ReceiptHandle m = None \<or> ReceiptHandle m = Some [] \<Longrightarrow>
   deleteMessage d m w = (Inl (Error ''missing receipt handle''), w, [])"
  by (auto simp: deleteMessage_def)

lemma poll_no_messages:
  assumes "fst (sqs_receiveMessage (sqs d) (queueUrl d) n w) = Inr None
         \<or> fst (sqs_receiveMessage (sqs d) (queueUrl d) n w) = Inr (Some [])"
  shows "fst (poll d n w) = Inr []"
  using assms
  by (cases "sqs_receiveMessage (sqs d) (queueUrl d) n w") (auto simp: poll_def Let_def)

lemma cycle_empty_batch:
  assumes "poll d 10 w = (Inr [], w1, evs1)"
  shows "fst (cycle d pmc pc w) =
           (case fst (deleteMessages d [] w1) of Inl err \<Rightarrow> Inl err | Inr u \<Rightarrow> Inr (pmc, pc + 1))"
    and "handlerCalls (snd (snd (cycle d pmc pc w))) = []"
proof -
  obtain r w2 evs2 where dm: "deleteMessages d [] w1 = (r, w2, evs2)"
    by (cases "deleteMessages d [] w1") auto
  from assms dm show "fst (cycle d pmc pc w) =
           (case fst (deleteMessages d [] w1) of Inl err \<Rightarrow> Inl err | Inr u \<Rightarrow> Inr (pmc, pc + 1))"
    by (cases r) (simp_all add: cycle_def Let_def processMessages_def)
  from dm have "handlerCalls evs2 = []"
    by (cases "sqs_deleteMessageBatch (sqs d) (queueUrl d) (Entries []) w1";
        cases "fst (sqs_deleteMessageBatch (sqs d) (queueUrl d) (Entries []) w1)")
       (auto simp: deleteMessages_def)
  with assms dm poll_resolved [OF assms] show "handlerCalls (snd (snd (cycle d pmc pc w))) = []"
    by (cases r) (simp_all add: cycle_def Let_def processMessages_def handlerCalls_append)
qed

text \<open>
  C1. Three messages are polled and handled, and the transport rejects the batched
  delete. \<^verbatim>\<open>deleteMessages\<close> has no \<^verbatim>\<open>try\<close> around the call: the rejection leaves
  \<^verbatim>\<open>start\<close>, nothing is logged at error level, and although the timer still has
  6000 ms there is no second poll. The single-message \<^verbatim>\<open>deleteMessage\<close> beside it
  does catch and log the same rejection.
\<close>

theorem delete_failure_leaves_the_loop:
  "fst (start 3 scripted outage) = Some (Inl (Error ''ServiceUnavailable''))
   \<and> handlerCalls (snd (snd (start 3 scripted outage))) = [msg ''1'' ''a'', msg ''2'' ''b'', msg ''3'' ''c'']
   \<and> logged Err (snd (snd (start 3 scripted outage))) = []
   \<and> pollCalls (snd (snd (start 3 scripted outage))) = 1
   \<and> samples (snd (snd (start 3 scripted outage))) = [10000]
   \<and> times (fst (snd (start 3 scripted outage))) = [6000, 2000]"
  by code_simp


text \<open>
  C9. The queue has no message: \<^verbatim>\<open>poll\<close> returns the empty batch and no error. The
  loop then sends a batched delete with no entries; the transport rejects it, and the
  rejection leaves \<^verbatim>\<open>start\<close> in the very cycle that polled nothing, with no
  handler invoked and 6000 ms left on the timer.
\<close>

theorem empty_poll_then_rejected_empty_delete:
  "poll scripted 10 emptyQueue = (Inr [], emptyQueue, [ReceiveMessage ''queue'' 10, Polled []])
   \<and> fst (start 3 scripted emptyQueue) = Some (Inl (Error ''EmptyBatchRequest''))
   \<and> batches (snd (snd (start 3 scripted emptyQueue))) = [[]]
   \<and> handlerCalls (snd (snd (start 3 scripted emptyQueue))) = []
   \<and> deleteRequests (snd (snd (start 3 scripted emptyQueue))) = [[]]
   \<and> pollCalls (snd (snd (start 3 scripted emptyQueue))) = 1"
  by code_simp

section \<open>The policy of the authorizer\<close>

lemma generatePolicy_document:
  "policyDocument (generatePolicy result) =
     \<lparr>Version = ''2012-10-17'',
      Statement = [\<lparr>Action = ''execute-api:Invoke'', Effect = ''Allow'', Resource = ''*''\<rparr>]\<rparr>"
  by (simp add: generatePolicy_def)

lemma authorizeBearer_policy:
  "authorizeBearer env token = Inr p \<Longrightarrow>
   p = generatePolicy None \<or> (\<exists>u s. p = generatePolicy (Some \<lparr>user = u, scope = s\<rparr>))"
  by (auto simp: authorizeBearer_def unauthorized_def authorized_def
      split: sum.splits list.splits prod.splits)

lemma authorizeApiKey_policy:
  "authorizeApiKey env token = Inr p \<Longrightarrow>
   p = generatePolicy None \<or> (\<exists>u s. p = generatePolicy (Some \<lparr>user = u, scope = s\<rparr>))"
  by (auto simp: authorizeApiKey_def unauthorized_def authorized_def Let_def
      split: sum.splits list.splits option.splits if_splits)

lemma authorize_policy:
  assumes "authorize env ev = Inr p"
  shows "p = generatePolicy None \<or> (\<exists>u s. p = generatePolicy (Some \<lparr>user = u, scope = s\<rparr>))"
proof -
  from assms obtain hs where hs: "headers ev = Some hs"
    by (cases "headers ev") (auto simp: authorize_def)
  define lowered where "lowered = fold (\<lambda>(header, v) acc. acc(toLowerCase header \<mapsto> v)) hs Map.empty"
  show ?thesis
  proof (cases "lowered ''authorization''")
    case None
    with assms hs show ?thesis by (simp add: authorize_def lowered_def unauthorized_def)
  next
    case (Some v)
    show ?thesis
    proof (cases v)
      case NotAString
      with assms hs Some show ?thesis by (simp add: authorize_def lowered_def unauthorized_def)
    next
      case (Str authorization)
      show ?thesis
      proof (cases "\<exists>authType token. authorization \<noteq> [] \<and> split_on CHR '' '' authorization = [authType, token]
          \<and> (toLowerCase authType = ''bearer'' \<or> toLowerCase authType = ''api-key'')")
        case True
        then obtain authType token where
          parts: "authorization \<noteq> []" "split_on CHR '' '' authorization = [authType, token]"
          and kind: "toLowerCase authType = ''bearer'' \<or> toLowerCase authType = ''api-key''" by blast
        from kind show ?thesis
        proof
          assume "toLowerCase authType = ''bearer''"
          with assms hs Some Str parts have "authorizeBearer env token = Inr p"
            by (simp add: authorize_def lowered_def)
          then show ?thesis by (rule authorizeBearer_policy)
        next
          assume k: "toLowerCase authType = ''api-key''"
          then have "toLowerCase authType \<noteq> ''bearer''" by simp
          with k assms hs Some Str parts have "authorizeApiKey env token = Inr p"
            by (simp add: authorize_def lowered_def)
          then show ?thesis by (rule authorizeApiKey_policy)
        qed
      next
        case False
        with assms hs Some Str have "p = generatePolicy None"
          by (auto simp: authorize_def lowered_def unauthorized_def split: list.splits if_splits)
        then show ?thesis by simp
      qed
    qed
  qed
qed

text \<open>
  C10. Whenever \<^verbatim>\<open>authorize\<close> calls back, the policy it passes is
  \<^verbatim>\<open>generatePolicy(null)\<close> or \<^verbatim>\<open>generatePolicy({ user, scope })\<close>, and its document has
  the one statement that allows \<^verbatim>\<open>execute-api:Invoke\<close> on every resource. The document
  is the same for every argument of \<^verbatim>\<open>generatePolicy\<close>: the policy of an authorized
  caller is the policy of an unauthorized one with \<^verbatim>\<open>principalId\<close> and the \<^verbatim>\<open>context\<close>
  of user and scope added, and the unauthorized one has neither.
\<close>

theorem authorize_policy_always_allows:
  "(authorize env ev = Inr p \<longrightarrow>
      Statement (policyDocument p) = [\<lparr>Action = ''execute-api:Invoke'', Effect = ''Allow'', Resource = ''*''\<rparr>]
      \<and> (p = generatePolicy None \<or> (\<exists>u s. p = generatePolicy (Some \<lparr>user = u, scope = s\<rparr>))))
   \<and> policyDocument (generatePolicy result) =
        \<lparr>Version = ''2012-10-17'',
         Statement = [\<lparr>Action = ''execute-api:Invoke'', Effect = ''Allow'', Resource = ''*''\<rparr>]\<rparr>
   \<and> principalId (generatePolicy None) = None
   \<and> policyContext (generatePolicy None) = None
   \<and> generatePolicy (Some \<lparr>user = u', scope = s'\<rparr>) =
        (generatePolicy None)\<lparr>principalId := Some u', policyContext := Some \<lparr>user = u', scope = s'\<rparr>\<rparr>"
proof (intro conjI impI)
  assume a: "authorize env ev = Inr p"
  from authorize_policy [OF a]
  show "p = generatePolicy None \<or> (\<exists>u s. p = generatePolicy (Some \<lparr>user = u, scope = s\<rparr>))" .
  then show "Statement (policyDocument p) =
      [\<lparr>Action = ''execute-api:Invoke'', Effect = ''Allow'', Resource = ''*''\<rparr>]"
    by (auto simp: generatePolicy_document)
qed (simp_all add: generatePolicy_def)

theorem authorize_policy_always_allows_witness:
  "authorize keyStore apiKeyRequest = Inr (generatePolicy (Some \<lparr>user = ''bob'', scope = ''read write''\<rparr>))
   \<and> authorize keyStore badTokenRequest = Inr (generatePolicy None)
   \<and> Statement (policyDocument (generatePolicy (Some \<lparr>user = ''bob'', scope = ''read write''\<rparr>))) =
       [\<lparr>Action = ''execute-api:Invoke'', Effect = ''Allow'', Resource = ''*''\<rparr>]
   \<and> Statement (policyDocument (generatePolicy None)) =
       [\<lparr>Action = ''execute-api:Invoke'', Effect = ''Allow'', Resource = ''*''\<rparr>]"
proof -
  have ok: "authorize keyStore apiKeyRequest = Inr (generatePolicy (Some \<lparr>user = ''bob'', scope = ''read write''\<rparr>))"
    by code_simp
  have no: "authorize keyStore badTokenRequest = Inr (generatePolicy None)"
    by code_simp
  from authorize_policy_always_allows [of keyStore apiKeyRequest
      "generatePolicy (Some \<lparr>user = ''bob'', scope = ''read write''\<rparr>)"] ok
  have "Statement (policyDocument (generatePolicy (Some \<lparr>user = ''bob'', scope = ''read write''\<rparr>))) =
       [\<lparr>Action = ''execute-api:Invoke'', Effect = ''Allow'', Resource = ''*''\<rparr>]" by blast
  moreover from authorize_policy_always_allows [of keyStore badTokenRequest "generatePolicy None"] no
  have "Statement (policyDocument (generatePolicy None)) =
       [\<lparr>Action = ''execute-api:Invoke'', Effect = ''Allow'', Resource = ''*''\<rparr>]" by blast
  ultimately show ?thesis using ok no by blast
qed

end
